theory Spec2Isabelle
  imports Complex_Main "HOL-Library.Multiset" "HOL-Library.Log_Nat"
begin

section \<open>Data model\<close>

text \<open>
  The module \<open>analyze.py\<close> works on lists of benchmark results. A result is an opaque
  value of type \<open>'r\<close>; the getters of \<open>HPLResult\<close> passed as \<open>binningFunction\<close> and
  \<open>statFunction\<close> are functions on it. A binning key is any value of a type \<open>'k\<close>
  with equality.

  A statistic value is a Python number: an \<open>int\<close> (unbounded) or a \<open>float\<close>. A finite
  float is the rational it denotes; \<open>nan\<close> and the infinities are left out. Python
  compares an int with a float by their exact values, so numbers are ordered by \<open>val\<close>.

  A Python \<open>dict\<close> keeps its keys in insertion order, and \<open>getBestBin\<close> depends on that
  order, so a dictionary is an association list whose keys are pairwise distinct.
\<close>

datatype error = ValueError | StatisticsError | IndexError | TypeError | OverflowError

datatype number = PyInt int | PyFloat rat

fun val :: "number \<Rightarrow> rat" where
  "val (PyInt i) = of_int i"
| "val (PyFloat x) = x"

fun is_int :: "number \<Rightarrow> bool" where
  "is_int (PyInt i) = True"
| "is_int (PyFloat x) = False"

type_synonym ('k, 'v) dict = "('k \<times> 'v) list"

text \<open>A well-formed dictionary has no key twice.\<close>

definition is_dict :: "('k, 'v) dict \<Rightarrow> bool" where
  "is_dict d = distinct (map fst d)"

text \<open>\<open>d.keys()\<close>, \<open>d.get(k)\<close> (\<open>None\<close> for a missing key) and \<open>d[k] = v\<close>.\<close>

definition dict_keys :: "('k, 'v) dict \<Rightarrow> 'k list" where
  "dict_keys d = map fst d"

definition dict_get :: "('k, 'v) dict \<Rightarrow> 'k \<Rightarrow> 'v option" where
  "dict_get d k = map_of d k"

fun dict_set :: "'k \<Rightarrow> 'v \<Rightarrow> ('k, 'v) dict \<Rightarrow> ('k, 'v) dict" where
  "dict_set k v [] = [(k, v)]"
| "dict_set k v ((k', v') # d) =
     (if k' = k then (k', v) # d else (k', v') # dict_set k v d)"

section \<open>binResultsBy\<close>

text \<open>
  \<open>binnedResults = defaultdict(list)\<close>: reading a missing key stores an empty list under
  it (at the end of the dictionary) before the list is handed out.
\<close>

definition defaultdict_getitem :: "'k \<Rightarrow> ('k, 'r list) dict \<Rightarrow> ('k, 'r list) dict" where
  "defaultdict_getitem k d = (case map_of d k of None \<Rightarrow> d @ [(k, [])] | Some _ \<Rightarrow> d)"

text \<open>\<open>.append(result)\<close> on the list stored under the key.\<close>

fun list_append :: "'k \<Rightarrow> 'r \<Rightarrow> ('k, 'r list) dict \<Rightarrow> ('k, 'r list) dict" where
  "list_append k r [] = []"
| "list_append k r ((k', rs) # d) =
     (if k' = k then (k', rs @ [r]) # d else (k', rs) # list_append k r d)"

text \<open>The loop \<open>for result in results: binnedResults[binningFunction(result)].append(result)\<close>.\<close>

fun binResultsBy_loop ::
  "('r \<Rightarrow> 'k) \<Rightarrow> 'r list \<Rightarrow> ('k, 'r list) dict \<Rightarrow> ('k, 'r list) dict" where
  "binResultsBy_loop binningFunction [] binnedResults = binnedResults"
| "binResultsBy_loop binningFunction (result # results) binnedResults =
     binResultsBy_loop binningFunction results
       (list_append (binningFunction result) result
          (defaultdict_getitem (binningFunction result) binnedResults))"

definition binResultsBy :: "'r list \<Rightarrow> ('r \<Rightarrow> 'k) \<Rightarrow> ('k, 'r list) dict" where
  "binResultsBy results binningFunction = binResultsBy_loop binningFunction results []"

section \<open>Conversion to float\<close>

text \<open>
  \<open>statistics.mean\<close> ends with \<open>float(Fraction)\<close>, which is the true division of the
  numerator by the denominator: the quotient correctly rounded to the nearest double,
  ties to the even mantissa, and \<open>OverflowError\<close> when the rounded value is beyond the
  largest double. A double in the binade \<open>[2^e, 2^(e+1))\<close> is a multiple of
  \<open>2^(e - 52)\<close>; below \<open>2^(-1022)\<close> the doubles are the multiples of \<open>2^(-1074)\<close>.
\<close>

definition round_half_even :: "rat \<Rightarrow> int" where
  "round_half_even x = (let n = \<lfloor>x\<rfloor>; r = x - of_int n in
      if r < 1 / 2 then n else if 1 / 2 < r then n + 1 else if even n then n else n + 1)"

text \<open>For \<open>0 < x\<close>, \<open>binade x\<close> is the \<open>e\<close> with \<open>2^e \<le> x < 2^(e+1)\<close>.\<close>

definition binade :: "rat \<Rightarrow> int" where
  "binade x = (let e = bitlen (fst (quotient_of x)) - bitlen (snd (quotient_of x))
               in if 2 powi e \<le> x then e else e - 1)"

definition quantum :: "rat \<Rightarrow> int" where
  "quantum x = max (binade x) (- 1022) - 52"

definition round_to_grid :: "int \<Rightarrow> rat \<Rightarrow> rat" where
  "round_to_grid p x = of_int (round_half_even (x / 2 powi p)) * 2 powi p"

definition round_double :: "rat \<Rightarrow> rat" where
  "round_double x = (if x = 0 then 0
     else if 0 < x then round_to_grid (quantum x) x
     else - round_to_grid (quantum (- x)) (- x))"

definition float_of_rat :: "rat \<Rightarrow> error + rat" where
  "float_of_rat x = (let r = round_double x in
     if 2 ^ 1024 \<le> \<bar>r\<bar> then Inl OverflowError else Inr r)"

section \<open>minMaxAvgPerBin\<close>

text \<open>
  The builtins \<open>min\<close> and \<open>max\<close> raise \<open>ValueError\<close> on an empty list and otherwise
  scan it, keeping the first smallest (largest) item.
\<close>

definition py_min :: "number list \<Rightarrow> error + number" where
  "py_min xs = (case xs of [] \<Rightarrow> Inl ValueError
     | x # ys \<Rightarrow> Inr (fold (\<lambda>item cur. if val item < val cur then item else cur) ys x))"

definition py_max :: "number list \<Rightarrow> error + number" where
  "py_max xs = (case xs of [] \<Rightarrow> Inl ValueError
     | x # ys \<Rightarrow> Inr (fold (\<lambda>item cur. if val cur < val item then item else cur) ys x))"

text \<open>
  \<open>statistics.mean(data)\<close> raises \<open>StatisticsError\<close> when there is no data point. It
  sums the data exactly as a fraction and divides by the count. The quotient is then
  converted to the type of the data: when every item is an int and the quotient has
  denominator 1, to that int; otherwise (some item is a float, or the denominator is
  not 1) to a float.
\<close>

definition mean :: "number list \<Rightarrow> error + number" where
  "mean data = (if length data < 1 then Inl StatisticsError
     else let value = sum_list (map val data) / of_nat (length data) in
       if list_all is_int data \<and> snd (quotient_of value) = 1
       then Inr (PyInt (fst (quotient_of value)))
       else (case float_of_rat value of Inl e \<Rightarrow> Inl e | Inr r \<Rightarrow> Inr (PyFloat r)))"

text \<open>The constants \<open>MMAMin = 0\<close>, \<open>MMAMax = 1\<close>, \<open>MMAAvg = 2\<close> index the result triple.\<close>

fun MMAMin :: "number \<times> number \<times> number \<Rightarrow> number" where
  "MMAMin (mn, mx, av) = mn"

fun MMAMax :: "number \<times> number \<times> number \<Rightarrow> number" where
  "MMAMax (mn, mx, av) = mx"

fun MMAAvg :: "number \<times> number \<times> number \<Rightarrow> number" where
  "MMAAvg (mn, mx, av) = av"

text \<open>
  The tuple \<open>(min(contents), max(contents), statistics.mean(contents))\<close> is built left
  to right, so the first failing call decides the error.
\<close>

definition stat_tuple :: "number list \<Rightarrow> error + (number \<times> number \<times> number)" where
  "stat_tuple contents =
     (case py_min contents of Inl e \<Rightarrow> Inl e
      | Inr mn \<Rightarrow>
        (case py_max contents of Inl e \<Rightarrow> Inl e
         | Inr mx \<Rightarrow>
           (case mean contents of Inl e \<Rightarrow> Inl e
            | Inr av \<Rightarrow> Inr (mn, mx, av))))"

text \<open>The loop over \<open>binnedResults.items()\<close>; an error leaves the loop at once.\<close>

fun minMaxAvgPerBin_loop ::
  "('r \<Rightarrow> number) \<Rightarrow> ('k, 'r list) dict \<Rightarrow> ('k, number \<times> number \<times> number) dict
     \<Rightarrow> error + ('k, number \<times> number \<times> number) dict" where
  "minMaxAvgPerBin_loop statFunction [] results = Inr results"
| "minMaxAvgPerBin_loop statFunction ((key, contents) # items) results =
     (case stat_tuple (map statFunction contents) of Inl e \<Rightarrow> Inl e
      | Inr t \<Rightarrow> minMaxAvgPerBin_loop statFunction items (dict_set key t results))"

definition minMaxAvgPerBin ::
  "('k, 'r list) dict \<Rightarrow> ('r \<Rightarrow> number) \<Rightarrow> error + ('k, number \<times> number \<times> number) dict" where
  "minMaxAvgPerBin binnedResults statFunction =
     minMaxAvgPerBin_loop statFunction binnedResults []"

section \<open>getBestBin\<close>

text \<open>
  \<open>list.sort(key = ..., reverse = ...)\<close> first applies the key function to every item
  (an exception there leaves the sort), then sorts the items by their keys with a stable
  sort. With \<open>reverse\<close> the list is reversed, sorted in ascending order and reversed
  again, so that items with equal keys keep their original order in either direction.
\<close>

fun sort_keys :: "('a \<Rightarrow> error + number) \<Rightarrow> 'a list \<Rightarrow> error + ('a \<times> number) list" where
  "sort_keys key [] = Inr []"
| "sort_keys key (x # xs) =
     (case key x of Inl e \<Rightarrow> Inl e
      | Inr v \<Rightarrow> (case sort_keys key xs of Inl e \<Rightarrow> Inl e | Inr vs \<Rightarrow> Inr ((x, v) # vs)))"

definition list_sort :: "('a \<Rightarrow> error + number) \<Rightarrow> bool \<Rightarrow> 'a list \<Rightarrow> error + 'a list" where
  "list_sort key reverse xs =
     (case sort_keys key xs of Inl e \<Rightarrow> Inl e
      | Inr kvs \<Rightarrow>
          Inr (map fst (if reverse then rev (sort_key (\<lambda>kv. val (snd kv)) (rev kvs))
                        else sort_key (\<lambda>kv. val (snd kv)) kvs)))"

text \<open>
  The sort key \<open>lambda x: minMaxAvg.get(x)[MMAAvg]\<close>: \<open>get\<close> gives \<open>None\<close> for a missing
  key, and subscripting \<open>None\<close> raises \<open>TypeError\<close>.
\<close>

definition avg_key :: "('k, number \<times> number \<times> number) dict \<Rightarrow> 'k \<Rightarrow> error + number" where
  "avg_key minMaxAvg x =
     (case dict_get minMaxAvg x of None \<Rightarrow> Inl TypeError | Some t \<Rightarrow> Inr (MMAAvg t))"

text \<open>\<open>bins[0]\<close> raises \<open>IndexError\<close> on the empty list.\<close>

definition getBestBin :: "('k, 'r list) dict \<Rightarrow> ('r \<Rightarrow> number) \<Rightarrow> bool \<Rightarrow> error + 'k" where
  "getBestBin binnedResults statFunction lowerIsBetter =
     (case minMaxAvgPerBin binnedResults statFunction of Inl e \<Rightarrow> Inl e
      | Inr minMaxAvg \<Rightarrow>
          (case list_sort (avg_key minMaxAvg) (\<not> lowerIsBetter) (dict_keys minMaxAvg) of
             Inl e \<Rightarrow> Inl e
           | Inr bins \<Rightarrow> (case bins of [] \<Rightarrow> Inl IndexError | b # _ \<Rightarrow> Inr b)))"

section \<open>Reference notions\<close>

text \<open>
  The notions the properties are stated with: a dictionary of bins none of which is
  empty; the exact arithmetic mean of a list of numbers (sum divided by count); a list
  of ints whose exact mean is an integer; a rational that is a double (converting it to
  float changes nothing); the value computed for each bin by \<open>statistics.mean\<close>, in
  dictionary order; the best of a list of computed means in a direction; and the triple
  of a list of numbers: an item of least value, an item of greatest value, and the exact
  mean as an int when the list is of ints and the mean an integer, else the exact mean
  rounded to the nearest double.
\<close>

definition nonempty_bins :: "('k, 'r list) dict \<Rightarrow> bool" where
  "nonempty_bins bins = list_all (\<lambda>b. snd b \<noteq> []) bins"

definition exact_mean :: "number list \<Rightarrow> rat" where
  "exact_mean vs = sum_list (map val vs) / of_nat (length vs)"

definition int_exact :: "number list \<Rightarrow> bool" where
  "int_exact vs = (list_all is_int vs \<and> of_int \<lfloor>exact_mean vs\<rfloor> = exact_mean vs)"

definition is_double :: "rat \<Rightarrow> bool" where
  "is_double x = (round_double x = x)"

definition bin_means :: "('r \<Rightarrow> number) \<Rightarrow> ('k, 'r list) dict \<Rightarrow> (error + number) list" where
  "bin_means statFunction bins = map (\<lambda>b. mean (map statFunction (snd b))) bins"

definition best_mean :: "number list \<Rightarrow> bool \<Rightarrow> rat" where
  "best_mean avs lowerIsBetter =
     (if lowerIsBetter then Min (set (map val avs)) else Max (set (map val avs)))"

definition is_stats :: "number list \<Rightarrow> number \<times> number \<times> number \<Rightarrow> bool" where
  "is_stats vs t =
     (MMAMin t \<in> set vs \<and> val (MMAMin t) = Min (set (map val vs))
      \<and> MMAMax t \<in> set vs \<and> val (MMAMax t) = Max (set (map val vs))
      \<and> MMAAvg t = (if int_exact vs then PyInt \<lfloor>exact_mean vs\<rfloor>
                     else PyFloat (round_double (exact_mean vs))))"

section \<open>Properties of binResultsBy\<close>

text \<open>
  C7: \<open>binResultsBy\<close> applied to an empty list of results returns the empty dictionary,
  whatever the binning function.
\<close>

theorem binResultsBy_empty: "binResultsBy [] binningFunction = []"
  by (simp add: binResultsBy_def)

subsection \<open>One step of the loop\<close>

lemma keys_list_append: "map fst (list_append k r d) = map fst d"
  by (induction d) auto

lemma map_of_list_append:
  "map_of (list_append k r d) k' =
     (if k' = k then map_option (\<lambda>rs. rs @ [r]) (map_of d k) else map_of d k')"
  by (induction d) auto

lemma keys_defaultdict_getitem:
  "map fst (defaultdict_getitem k d) = (if k \<in> set (map fst d) then map fst d else map fst d @ [k])"
proof (cases "map_of d k")
  case None
  then have "k \<notin> fst ` set d" by (simp add: map_of_eq_None_iff)
  with None show ?thesis by (simp add: defaultdict_getitem_def)
next
  case (Some rs)
  then have "k \<in> fst ` set d" by (metis map_of_eq_None_iff option.distinct(1))
  with Some show ?thesis by (simp add: defaultdict_getitem_def)
qed

lemma map_of_defaultdict_getitem:
  "map_of (defaultdict_getitem k d) k' =
     (if k' = k \<and> map_of d k = None then Some [] else map_of d k')"
  by (auto simp: defaultdict_getitem_def map_add_def split: option.splits)

lemma is_dict_step:
  "is_dict d \<Longrightarrow> is_dict (list_append k r (defaultdict_getitem k d))"
  by (auto simp: is_dict_def keys_list_append keys_defaultdict_getitem)

lemma map_of_step:
  "map_of (list_append k r (defaultdict_getitem k d)) k' =
     (if k' = k then Some ((case map_of d k of None \<Rightarrow> [] | Some rs \<Rightarrow> rs) @ [r])
      else map_of d k')"
  by (auto simp: map_of_list_append map_of_defaultdict_getitem split: option.splits)

lemma is_dict_loop:
  "is_dict d \<Longrightarrow> is_dict (binResultsBy_loop f rs d)"
  by (induction rs arbitrary: d) (auto simp: is_dict_step)

lemma map_of_loop:
  "map_of (binResultsBy_loop f rs d) k =
     (if filter (\<lambda>r. f r = k) rs = [] then map_of d k
      else Some ((case map_of d k of None \<Rightarrow> [] | Some xs \<Rightarrow> xs) @ filter (\<lambda>r. f r = k) rs))"
  by (induction rs arbitrary: d) (auto simp: map_of_step split: option.splits)

lemma mset_list_append:
  "distinct (map fst d) \<Longrightarrow> k \<in> set (map fst d) \<Longrightarrow>
   mset (concat (map snd (list_append k r d))) = add_mset r (mset (concat (map snd d)))"
proof (induction d)
  case Nil
  then show ?case by simp
next
  case (Cons b d)
  obtain k' rs where b: "b = (k', rs)" by (cases b)
  show ?case
  proof (cases "k' = k")
    case True
    then show ?thesis by (simp add: b)
  next
    case False
    with Cons.prems have "distinct (map fst d)" "k \<in> set (map fst d)"
      by (auto simp: b)
    then show ?thesis using False Cons.IH by (simp add: b)
  qed
qed

lemma concat_defaultdict_getitem:
  "concat (map snd (defaultdict_getitem k d)) = concat (map snd d)"
  by (auto simp: defaultdict_getitem_def split: option.splits)

lemma mset_step:
  "is_dict d \<Longrightarrow>
   mset (concat (map snd (list_append k r (defaultdict_getitem k d)))) =
     add_mset r (mset (concat (map snd d)))"
  by (subst mset_list_append)
     (auto simp: is_dict_def keys_defaultdict_getitem concat_defaultdict_getitem)

lemma mset_loop:
  "is_dict d \<Longrightarrow>
   mset (concat (map snd (binResultsBy_loop f rs d))) = mset (concat (map snd d)) + mset rs"
  by (induction rs arbitrary: d) (auto simp: mset_step is_dict_step)

lemma is_dict_binResultsBy: "is_dict (binResultsBy results f)"
  unfolding binResultsBy_def by (rule is_dict_loop) (simp add: is_dict_def)

lemma map_of_binResultsBy:
  "map_of (binResultsBy results f) k =
     (if filter (\<lambda>r. f r = k) results = [] then None
      else Some (filter (\<lambda>r. f r = k) results))"
  by (simp add: binResultsBy_def map_of_loop)

lemma bin_iff:
  "(k, rs) \<in> set (binResultsBy results f) \<longleftrightarrow>
     rs \<noteq> [] \<and> rs = filter (\<lambda>r. f r = k) results"
proof -
  have "(k, rs) \<in> set (binResultsBy results f) \<longleftrightarrow> map_of (binResultsBy results f) k = Some rs"
    using is_dict_binResultsBy [of results f] by (simp add: is_dict_def)
  then show ?thesis by (auto simp: map_of_binResultsBy)
qed


subsection \<open>Partition\<close>

text \<open>
  C1: the result of \<open>binResultsBy\<close> is a dictionary (no key twice) in which every input
  result lies in exactly one bin; a result lies in a bin if and only if the bin's key is
  the value of the binning function on it, so two results share a bin if and only if
  their keys are equal; and the bins concatenated in dictionary order are a permutation
  of the input (equal as multisets).
\<close>

theorem binResultsBy_partition:
  "is_dict (binResultsBy results f)
   \<and> (\<forall>r \<in> set results. \<exists>!b. b \<in> set (binResultsBy results f) \<and> r \<in> set (snd b))
   \<and> (\<forall>r \<in> set results. \<forall>b \<in> set (binResultsBy results f).
         r \<in> set (snd b) \<longleftrightarrow> fst b = f r)
   \<and> (\<forall>r1 \<in> set results. \<forall>r2 \<in> set results.
         (\<exists>b \<in> set (binResultsBy results f). r1 \<in> set (snd b) \<and> r2 \<in> set (snd b))
           \<longleftrightarrow> f r1 = f r2)
   \<and> mset (concat (map snd (binResultsBy results f))) = mset results"
proof -
  let ?d = "binResultsBy results f"
  have in_bin: "r \<in> set (snd b) \<longleftrightarrow> fst b = f r"
    if "r \<in> set results" "b \<in> set ?d" for r b
  proof -
    obtain k rs where b: "b = (k, rs)" by (cases b)
    with that(2) have rs: "rs = filter (\<lambda>r. f r = k) results" "rs \<noteq> []"
      by (auto simp: bin_iff)
    with that(1) show ?thesis by (auto simp: b)
  qed
  have bin_of: "(f r, filter (\<lambda>x. f x = f r) results) \<in> set ?d" if "r \<in> set results" for r
  proof -
    from that have "filter (\<lambda>x. f x = f r) results \<noteq> []"
      by (auto simp: filter_empty_conv)
    then show ?thesis by (simp add: bin_iff)
  qed
  have one: "\<exists>!b. b \<in> set ?d \<and> r \<in> set (snd b)" if r: "r \<in> set results" for r
  proof (rule ex1I [of _ "(f r, filter (\<lambda>x. f x = f r) results)"])
    show "(f r, filter (\<lambda>x. f x = f r) results) \<in> set ?d
        \<and> r \<in> set (snd (f r, filter (\<lambda>x. f x = f r) results))"
      using r bin_of [OF r] by simp
  next
    fix b assume b: "b \<in> set ?d \<and> r \<in> set (snd b)"
    then have "fst b = f r" using in_bin [OF r] by blast
    moreover from b have "snd b = filter (\<lambda>x. f x = fst b) results"
      using bin_iff [of "fst b" "snd b" results f] by simp
    ultimately show "b = (f r, filter (\<lambda>x. f x = f r) results)"
      by (cases b) simp
  qed
  have same: "(\<exists>b \<in> set ?d. r1 \<in> set (snd b) \<and> r2 \<in> set (snd b)) \<longleftrightarrow> f r1 = f r2"
    if r1: "r1 \<in> set results" and r2: "r2 \<in> set results" for r1 r2
  proof
    assume "\<exists>b \<in> set ?d. r1 \<in> set (snd b) \<and> r2 \<in> set (snd b)"
    then show "f r1 = f r2" using in_bin [OF r1] in_bin [OF r2] by metis
  next
    assume eq: "f r1 = f r2"
    let ?b = "(f r1, filter (\<lambda>x. f x = f r1) results)"
    have "?b \<in> set ?d" by (rule bin_of [OF r1])
    moreover have "r1 \<in> set (snd ?b)" "r2 \<in> set (snd ?b)" using r1 r2 eq by simp_all
    ultimately show "\<exists>b \<in> set ?d. r1 \<in> set (snd b) \<and> r2 \<in> set (snd b)" by blast
  qed
  have perm: "mset (concat (map snd ?d)) = mset results"
    unfolding binResultsBy_def using mset_loop [of "[]" f results] by (simp add: is_dict_def)
  show ?thesis using is_dict_binResultsBy in_bin one same perm by blast
qed

lemma binResultsBy_example:
  "binResultsBy [(4::nat, 10::rat), (4, 20), (8, 5)] fst = [(4, [(4, 10), (4, 20)]), (8, [(8, 5)])]"
  by (simp add: binResultsBy_def defaultdict_getitem_def)

theorem binResultsBy_partition_witness:
  "(4::nat, 10::rat) \<in> set [(4, 10), (4, 20), (8, 5)]
   \<and> (\<exists>!b. b \<in> set (binResultsBy [(4::nat, 10::rat), (4, 20), (8, 5)] fst) \<and> (4, 10) \<in> set (snd b))
   \<and> (4, [(4::nat, 10::rat), (4, 20)]) \<in> set (binResultsBy [(4, 10), (4, 20), (8, 5)] fst)
   \<and> mset (concat (map snd (binResultsBy [(4::nat, 10::rat), (4, 20), (8, 5)] fst)))
       = mset [(4, 10), (4, 20), (8, 5)]"
proof -
  have mem: "(4::nat, 10::rat) \<in> set [(4, 10), (4, 20), (8, 5)]" by simp
  note p = binResultsBy_partition [of "[(4::nat, 10::rat), (4, 20), (8, 5)]" fst]
  from p mem have "\<exists>!b. b \<in> set (binResultsBy [(4::nat, 10::rat), (4, 20), (8, 5)] fst)
      \<and> (4, 10) \<in> set (snd b)"
    by blast
  moreover from p have "mset (concat (map snd (binResultsBy [(4::nat, 10::rat), (4, 20), (8, 5)] fst)))
       = mset [(4, 10), (4, 20), (8, 5)]"
    by blast
  moreover have "(4, [(4::nat, 10::rat), (4, 20)]) \<in> set (binResultsBy [(4, 10), (4, 20), (8, 5)] fst)"
    by (simp add: binResultsBy_example)
  ultimately show ?thesis using mem by blast
qed

subsection \<open>Stability\<close>

text \<open>
  C4: the contents of the bin with key \<open>k\<close> are exactly the input results whose key is
  \<open>k\<close>, in the order of the input list.
\<close>

theorem binResultsBy_stable:
  "(k, rs) \<in> set (binResultsBy results f) \<Longrightarrow> rs = filter (\<lambda>r. f r = k) results"
  by (simp add: bin_iff)

theorem binResultsBy_stable_witness:
  "(4, [(4::nat, 10::rat), (4, 20)]) \<in> set (binResultsBy [(4, 10), (8, 5), (4, 20)] fst)
   \<and> [(4::nat, 10::rat), (4, 20)] = filter (\<lambda>r. fst r = 4) [(4, 10), (8, 5), (4, 20)]"
proof -
  have h: "(4, [(4::nat, 10::rat), (4, 20)]) \<in> set (binResultsBy [(4, 10), (8, 5), (4, 20)] fst)"
    by (simp add: binResultsBy_def defaultdict_getitem_def)
  from binResultsBy_stable [OF h] h show ?thesis by blast
qed

subsection \<open>No empty bin\<close>

text \<open>
  C8: no bin of the dictionary returned by \<open>binResultsBy\<close> is empty.
\<close>

theorem binResultsBy_bins_nonempty:
  "(k, rs) \<in> set (binResultsBy results f) \<Longrightarrow> rs \<noteq> []"
  by (auto simp: bin_iff)

theorem binResultsBy_bins_nonempty_witness:
  "(8, [(8::nat, 5::rat)]) \<in> set (binResultsBy [(4, 10), (8, 5), (4, 20)] fst)
   \<and> [(8::nat, 5::rat)] \<noteq> []"
proof -
  have h: "(8, [(8::nat, 5::rat)]) \<in> set (binResultsBy [(4, 10), (8, 5), (4, 20)] fst)"
    by (simp add: binResultsBy_def defaultdict_getitem_def)
  from binResultsBy_bins_nonempty [OF h] h show ?thesis by blast
qed

section \<open>Properties of the conversion to float\<close>

text \<open>
  Rounding to the nearest double is monotone: each binade is rounded on its own grid,
  and the powers of two that separate the binades lie on the grids of both sides.
\<close>

lemma rhe_bounds: "of_int (round_half_even x) \<le> x + 1/2" "x - 1/2 \<le> of_int (round_half_even x)"
  unfolding round_half_even_def Let_def by (auto; linarith)+

lemma rhe_int [simp]: "round_half_even (of_int n) = n"
  by (simp add: round_half_even_def)

lemma rhe_mono: "x \<le> y \<Longrightarrow> round_half_even x \<le> round_half_even y"
proof -
  assume xy: "x \<le> y"
  then have fl: "\<lfloor>x\<rfloor> \<le> \<lfloor>y\<rfloor>" by (rule floor_mono)
  show ?thesis
  proof (cases "\<lfloor>x\<rfloor> = \<lfloor>y\<rfloor>")
    case True
    with xy show ?thesis by (auto simp: round_half_even_def Let_def)
  next
    case False
    with fl have "\<lfloor>x\<rfloor> + 1 \<le> \<lfloor>y\<rfloor>" by simp
    moreover have "round_half_even x \<le> \<lfloor>x\<rfloor> + 1" by (simp add: round_half_even_def Let_def)
    moreover have "\<lfloor>y\<rfloor> \<le> round_half_even y" by (simp add: round_half_even_def Let_def)
    ultimately show ?thesis by linarith
  qed
qed


lemma binade_bounds:
  assumes "0 < x"
  shows "2 powi binade x \<le> x" and "x < 2 powi (binade x + 1)"
proof -
  obtain a b where q: "quotient_of x = (a, b)" by (cases "quotient_of x")
  then have b: "0 < b" by (rule quotient_of_denom_pos)
  from q have x: "x = of_int a / of_int b" by (rule quotient_of_div)
  with assms b have a: "0 < a" by (simp add: zero_less_divide_iff)
  define la where "la = bitlen a"
  define lb where "lb = bitlen b"
  from a b have pos: "1 \<le> la" "1 \<le> lb"
    unfolding la_def lb_def using bitlen_eq_zero_iff bitlen_nonneg
    by (smt (verit))+
  from bitlen_bounds [OF a] have "2 ^ nat (la - 1) \<le> a" "a < 2 ^ nat la"
    by (simp_all add: la_def)
  then have "(of_int (2 ^ nat (la - 1)) :: rat) \<le> of_int a" "(of_int a :: rat) < of_int (2 ^ nat la)"
    by (simp_all only: of_int_le_iff of_int_less_iff)
  then have ra: "(2::rat) powi (la - 1) \<le> of_int a" "(of_int a :: rat) < 2 powi la"
    using pos by (simp_all add: power_int_nonneg_exp)
  from bitlen_bounds [OF b] have "2 ^ nat (lb - 1) \<le> b" "b < 2 ^ nat lb"
    by (simp_all add: lb_def)
  then have "(of_int (2 ^ nat (lb - 1)) :: rat) \<le> of_int b" "(of_int b :: rat) < of_int (2 ^ nat lb)"
    by (simp_all only: of_int_le_iff of_int_less_iff)
  then have rb: "(2::rat) powi (lb - 1) \<le> of_int b" "(of_int b :: rat) < 2 powi lb"
    using pos by (simp_all add: power_int_nonneg_exp)
  have bpos: "(0::rat) < of_int b" using b by simp
  have apos: "(0::rat) < of_int a" using a by simp
  have "x * 2 powi (lb - 1) \<le> x * of_int b" using rb(1) assms by simp
  also have "\<dots> = of_int a" using bpos by (simp add: x)
  also have "\<dots> < 2 powi la" by (rule ra(2))
  finally have "x < 2 powi la / 2 powi (lb - 1)"
    by (simp add: pos_less_divide_eq)
  then have up: "x < 2 powi (la - lb + 1)"
    by (simp add: power_int_diff [symmetric] algebra_simps)
  have "2 powi (la - 1) \<le> (of_int a :: rat)" by (rule ra(1))
  also have "\<dots> = x * of_int b" using bpos by (simp add: x)
  also have "\<dots> < x * 2 powi lb" using rb(2) assms by simp
  finally have "2 powi (la - 1) / 2 powi lb < x"
    by (simp add: pos_divide_less_eq)
  then have lo: "2 powi (la - lb - 1) < x"
    by (simp add: power_int_diff [symmetric] algebra_simps)
  have bin: "binade x = (if 2 powi (la - lb) \<le> x then la - lb else la - lb - 1)"
    by (simp add: binade_def q la_def lb_def)
  show "2 powi binade x \<le> x" using lo by (simp add: bin)
  show "x < 2 powi (binade x + 1)" using up by (auto simp: bin not_le)
qed

lemma powi2_less_iff: "(2::rat) powi m < 2 powi n \<longleftrightarrow> m < n"
proof
  assume "(2::rat) powi m < 2 powi n"
  show "m < n"
  proof (rule ccontr)
    assume "\<not> m < n"
    then have "n \<le> m" by simp
    then have "(2::rat) powi n \<le> 2 powi m" by (rule power_int_increasing) simp
    with \<open>(2::rat) powi m < 2 powi n\<close> show False by simp
  qed
next
  assume "m < n"
  then show "(2::rat) powi m < 2 powi n" by (rule power_int_strict_increasing) simp
qed

lemma binade_unique:
  assumes "2 powi e \<le> x" and "x < 2 powi (e + 1)"
  shows "binade x = e"
proof -
  have pos: "0 < x" using assms(1) by (rule less_le_trans [rotated]) simp
  note b = binade_bounds [OF pos]
  have "(2::rat) powi e < 2 powi (binade x + 1)" using assms(1) b(2) by simp
  then have "e < binade x + 1" by (simp only: powi2_less_iff)
  moreover have "(2::rat) powi binade x < 2 powi (e + 1)" using assms(2) b(1) by simp
  then have "binade x < e + 1" by (simp only: powi2_less_iff)
  ultimately show ?thesis by simp
qed

lemma binade_mono:
  assumes "0 < x" and "x \<le> y"
  shows "binade x \<le> binade y"
proof -
  have y: "0 < y" using assms by simp
  have "(2::rat) powi binade x < 2 powi (binade y + 1)"
    using binade_bounds(1) [OF assms(1)] binade_bounds(2) [OF y] assms(2) by simp
  then have "binade x < binade y + 1" by (simp only: powi2_less_iff)
  then show ?thesis by simp
qed


lemma round_to_grid_mono: "x \<le> y \<Longrightarrow> round_to_grid p x \<le> round_to_grid p y"
proof -
  assume "x \<le> y"
  then have "x / 2 powi p \<le> y / 2 powi p" by (simp add: divide_right_mono)
  then have "round_half_even (x / 2 powi p) \<le> round_half_even (y / 2 powi p)" by (rule rhe_mono)
  then show ?thesis by (simp add: round_to_grid_def)
qed

lemma round_to_grid_power:
  assumes "p \<le> e"
  shows "round_to_grid p (2 powi e) = 2 powi e"
proof -
  have "(2::rat) powi e / 2 powi p = 2 powi (e - p)" by (simp add: power_int_diff)
  also have "\<dots> = of_int (2 ^ nat (e - p))" using assms by (simp add: power_int_nonneg_exp)
  finally have "round_half_even ((2::rat) powi e / 2 powi p) = 2 ^ nat (e - p)"
    by (simp only: rhe_int)
  then have "round_to_grid p (2 powi e) = of_int (2 ^ nat (e - p)) * 2 powi p"
    by (simp add: round_to_grid_def)
  also have "\<dots> = 2 powi (e - p) * 2 powi p" using assms by (simp add: power_int_nonneg_exp)
  also have "\<dots> = 2 powi e" by (simp add: power_int_add [symmetric])
  finally show ?thesis .
qed

lemma round_to_grid_nonneg: "0 \<le> x \<Longrightarrow> 0 \<le> round_to_grid p x"
proof -
  assume "0 \<le> x"
  then have "round_to_grid p 0 \<le> round_to_grid p x" by (rule round_to_grid_mono)
  then show ?thesis by (simp add: round_to_grid_def round_half_even_def)
qed

lemma round_pos_mono:
  assumes "0 < x" and "x \<le> y"
  shows "round_to_grid (quantum x) x \<le> round_to_grid (quantum y) y"
proof -
  have y: "0 < y" using assms by simp
  have e: "binade x \<le> binade y" using assms by (rule binade_mono)
  show ?thesis
  proof (cases "quantum x = quantum y")
    case True
    then show ?thesis using assms(2) by (simp add: round_to_grid_mono)
  next
    case False
    with e have lt: "binade x < binade y" and big: "- 1022 < binade y"
      by (auto simp: quantum_def max_def split: if_splits)
    let ?t = "(2::rat) powi binade y"
    have "x < 2 powi (binade x + 1)" using assms(1) by (rule binade_bounds)
    also have "\<dots> \<le> ?t" using lt by (intro power_int_increasing) simp_all
    finally have xt: "x \<le> ?t" by simp
    have ty: "?t \<le> y" using y by (rule binade_bounds)
    have px: "quantum x \<le> binade y" using lt big by (simp add: quantum_def)
    have py: "quantum y \<le> binade y" using big by (simp add: quantum_def)
    have "round_to_grid (quantum x) x \<le> round_to_grid (quantum x) ?t"
      using xt by (rule round_to_grid_mono)
    also have "\<dots> = ?t" using px by (rule round_to_grid_power)
    also have "\<dots> = round_to_grid (quantum y) ?t" using py by (simp add: round_to_grid_power)
    also have "\<dots> \<le> round_to_grid (quantum y) y" using ty by (rule round_to_grid_mono)
    finally show ?thesis .
  qed
qed

lemma round_double_mono:
  assumes "x \<le> y"
  shows "round_double x \<le> round_double y"
proof -
  consider "0 < x" | "x \<le> 0" "0 \<le> y" | "y < 0" by linarith
  then show ?thesis
  proof cases
    case 1
    with assms have "0 < y" by simp
    with 1 assms show ?thesis by (simp add: round_double_def round_pos_mono)
  next
    case 2
    have "round_double x \<le> 0"
      using 2(1) round_to_grid_nonneg [of "- x" "quantum (- x)"] by (simp add: round_double_def)
    moreover have "0 \<le> round_double y"
      using 2(2) round_to_grid_nonneg [of y "quantum y"] by (simp add: round_double_def)
    ultimately show ?thesis by simp
  next
    case 3
    with assms have "x < 0" by simp
    have "round_to_grid (quantum (- y)) (- y) \<le> round_to_grid (quantum (- x)) (- x)"
      using 3 assms by (intro round_pos_mono) simp_all
    with 3 \<open>x < 0\<close> show ?thesis by (simp add: round_double_def)
  qed
qed

section \<open>Properties of minMaxAvgPerBin\<close>

subsection \<open>The builtins, the mean and the loop\<close>

lemma val_fold_min:
  "val (fold (\<lambda>item cur. if val item < val cur then item else cur) ys x)
     = fold min (map val ys) (val x)"
  by (induction ys arbitrary: x) (auto simp: min_def)

lemma val_fold_max:
  "val (fold (\<lambda>item cur. if val cur < val item then item else cur) ys x)
     = fold max (map val ys) (val x)"
  by (induction ys arbitrary: x) (auto simp: max_def)

lemma fold_min_mem:
  "fold (\<lambda>item cur. if val item < val cur then item else cur) ys x \<in> set (x # ys)"
  by (induction ys arbitrary: x) auto

lemma fold_max_mem:
  "fold (\<lambda>item cur. if val cur < val item then item else cur) ys x \<in> set (x # ys)"
  by (induction ys arbitrary: x) auto

lemma py_min_Nil: "py_min [] = Inl ValueError"
  by (simp add: py_min_def)

lemma py_min_Cons:
  assumes "xs \<noteq> []"
  shows "\<exists>m. py_min xs = Inr m \<and> m \<in> set xs \<and> val m = Min (set (map val xs))"
proof -
  from assms obtain x ys where xs: "xs = x # ys" by (cases xs) auto
  let ?m = "fold (\<lambda>item cur. if val item < val cur then item else cur) ys x"
  have "py_min xs = Inr ?m" by (simp add: py_min_def xs)
  moreover have "?m \<in> set xs" unfolding xs by (rule fold_min_mem)
  moreover have "val ?m = Min (set (map val xs))"
    using Min.set_eq_fold [of "val x" "map val ys"] by (simp add: val_fold_min xs)
  ultimately show ?thesis by blast
qed

lemma py_max_Cons:
  assumes "xs \<noteq> []"
  shows "\<exists>m. py_max xs = Inr m \<and> m \<in> set xs \<and> val m = Max (set (map val xs))"
proof -
  from assms obtain x ys where xs: "xs = x # ys" by (cases xs) auto
  let ?m = "fold (\<lambda>item cur. if val cur < val item then item else cur) ys x"
  have "py_max xs = Inr ?m" by (simp add: py_max_def xs)
  moreover have "?m \<in> set xs" unfolding xs by (rule fold_max_mem)
  moreover have "val ?m = Max (set (map val xs))"
    using Max.set_eq_fold [of "val x" "map val ys"] by (simp add: val_fold_max xs)
  ultimately show ?thesis by blast
qed

lemma denominator_one_iff: "snd (quotient_of q) = 1 \<longleftrightarrow> of_int \<lfloor>q\<rfloor> = q"
proof
  assume d: "snd (quotient_of q) = 1"
  obtain a b where ab: "quotient_of q = (a, b)" by (cases "quotient_of q")
  with d have "q = of_int a" using quotient_of_div [OF ab] by simp
  then show "of_int \<lfloor>q\<rfloor> = q" by simp
next
  assume "of_int \<lfloor>q\<rfloor> = q"
  then have "q = of_int \<lfloor>q\<rfloor>" by (rule sym)
  then have "q = Rat.of_int \<lfloor>q\<rfloor>" by (simp only: Rat.of_int_def)
  then have "quotient_of q = (\<lfloor>q\<rfloor>, 1)" using quotient_of_int [of "\<lfloor>q\<rfloor>"] by simp
  then show "snd (quotient_of q) = 1" by simp
qed

lemma numerator_of_int: "snd (quotient_of q) = 1 \<Longrightarrow> fst (quotient_of q) = \<lfloor>q\<rfloor>"
proof -
  assume d: "snd (quotient_of q) = 1"
  obtain a b where ab: "quotient_of q = (a, b)" by (cases "quotient_of q")
  with d have "q = of_int a" using quotient_of_div [OF ab] by simp
  then show ?thesis by (simp add: ab)
qed

lemma mean_Nil: "mean [] = Inl StatisticsError"
  by (simp add: mean_def)

lemma mean_unfold:
  "vs \<noteq> [] \<Longrightarrow>
   mean vs = (if list_all is_int vs \<and> snd (quotient_of (exact_mean vs)) = 1
              then Inr (PyInt (fst (quotient_of (exact_mean vs))))
              else (case float_of_rat (exact_mean vs) of Inl e \<Rightarrow> Inl e
                    | Inr r \<Rightarrow> Inr (PyFloat r)))"
  by (cases vs) (simp_all add: mean_def Let_def exact_mean_def)

lemma mean_int_exact:
  assumes "vs \<noteq> []" and "int_exact vs"
  shows "mean vs = Inr (PyInt \<lfloor>exact_mean vs\<rfloor>)"
proof -
  from assms(2) have ints: "list_all is_int vs"
    and fl: "of_int \<lfloor>exact_mean vs\<rfloor> = exact_mean vs"
    by (simp_all only: int_exact_def)
  from fl have den: "snd (quotient_of (exact_mean vs)) = 1" by (simp only: denominator_one_iff)
  then have num: "fst (quotient_of (exact_mean vs)) = \<lfloor>exact_mean vs\<rfloor>"
    by (rule numerator_of_int)
  show ?thesis by (simp only: mean_unfold [OF assms(1)] ints den num simp_thms if_True)
qed

lemma mean_float:
  assumes "vs \<noteq> []" and "\<not> int_exact vs"
  shows "mean vs = (if 2 ^ 1024 \<le> \<bar>round_double (exact_mean vs)\<bar> then Inl OverflowError
              else Inr (PyFloat (round_double (exact_mean vs))))"
proof -
  have "\<not> (list_all is_int vs \<and> snd (quotient_of (exact_mean vs)) = 1)"
    using assms(2) unfolding int_exact_def denominator_one_iff .
  then have "mean vs = (case float_of_rat (exact_mean vs) of Inl e \<Rightarrow> Inl e
                    | Inr r \<Rightarrow> Inr (PyFloat r))"
    by (simp only: mean_unfold [OF assms(1)] if_False)
  then show ?thesis by (simp add: float_of_rat_def Let_def)
qed

lemma mean_errors:
  "mean vs = Inl e \<Longrightarrow> (vs = [] \<and> e = StatisticsError) \<or> (vs \<noteq> [] \<and> e = OverflowError)"
  by (cases "vs = []"; cases "int_exact vs")
     (auto simp: mean_Nil mean_int_exact mean_float split: if_splits)

lemma stat_tuple_Nil: "stat_tuple [] = Inl ValueError"
  by (simp add: stat_tuple_def py_min_Nil)

lemma stat_tuple_Cons:
  assumes "vs \<noteq> []"
  shows "\<exists>mn mx. mn \<in> set vs \<and> val mn = Min (set (map val vs))
           \<and> mx \<in> set vs \<and> val mx = Max (set (map val vs))
           \<and> stat_tuple vs = (case mean vs of Inl e \<Rightarrow> Inl e | Inr av \<Rightarrow> Inr (mn, mx, av))"
proof -
  from py_min_Cons [OF assms] obtain mn
    where mn: "py_min vs = Inr mn" "mn \<in> set vs" "val mn = Min (set (map val vs))" by blast
  from py_max_Cons [OF assms] obtain mx
    where mx: "py_max vs = Inr mx" "mx \<in> set vs" "val mx = Max (set (map val vs))" by blast
  have "stat_tuple vs = (case mean vs of Inl e \<Rightarrow> Inl e | Inr av \<Rightarrow> Inr (mn, mx, av))"
    by (simp add: stat_tuple_def mn(1) mx(1))
  with mn mx show ?thesis by blast
qed

lemma stat_tuple_errors:
  "stat_tuple vs = Inl e \<Longrightarrow>
     (vs = [] \<and> e = ValueError) \<or> (vs \<noteq> [] \<and> e = OverflowError \<and> mean vs = Inl OverflowError)"
proof (cases "vs = []")
  case True
  assume "stat_tuple vs = Inl e"
  with True show ?thesis by (simp add: stat_tuple_Nil)
next
  case False
  assume err: "stat_tuple vs = Inl e"
  from stat_tuple_Cons [OF False] obtain mn mx where
    "stat_tuple vs = (case mean vs of Inl e \<Rightarrow> Inl e | Inr av \<Rightarrow> Inr (mn, mx, av))" by blast
  with err have "mean vs = Inl e" by (cases "mean vs") simp_all
  with False mean_errors [of vs e] show ?thesis by auto
qed

lemma stat_tuple_mean:
  "stat_tuple vs = Inr t \<Longrightarrow> vs \<noteq> [] \<and> mean vs = Inr (MMAAvg t)"
proof -
  assume ok: "stat_tuple vs = Inr t"
  then have ne: "vs \<noteq> []" by (auto simp: stat_tuple_Nil)
  from stat_tuple_Cons [OF ne] obtain mn mx where
    "stat_tuple vs = (case mean vs of Inl e \<Rightarrow> Inl e | Inr av \<Rightarrow> Inr (mn, mx, av))" by blast
  with ok have "mean vs = Inr (MMAAvg t)" by (cases "mean vs") auto
  with ne show ?thesis by simp
qed

lemma dict_set_new: "k \<notin> set (map fst d) \<Longrightarrow> dict_set k v d = d @ [(k, v)]"
  by (induction d) auto

lemma dict_set_nonempty: "dict_set k v d \<noteq> []"
  by (cases d) (auto split: if_splits)

lemma keys_dict_set:
  "map fst (dict_set k v d) = (if k \<in> set (map fst d) then map fst d else map fst d @ [k])"
  by (induction d) (auto simp: rev_image_eqI)

lemma mean_bounds:
  fixes xs :: "rat list"
  assumes "xs \<noteq> []"
  shows "Min (set xs) \<le> sum_list xs / of_nat (length xs)"
    and "sum_list xs / of_nat (length xs) \<le> Max (set xs)"
proof -
  have pos: "(0::rat) < of_nat (length xs)" using assms by simp
  have "sum_list (map (\<lambda>x. Min (set xs)) xs) \<le> sum_list (map (\<lambda>x. x) xs)"
    by (rule sum_list_mono) simp
  then have "of_nat (length xs) * Min (set xs) \<le> sum_list xs"
    by (simp add: sum_list_triv)
  then show "Min (set xs) \<le> sum_list xs / of_nat (length xs)"
    using pos by (simp add: pos_le_divide_eq mult.commute)
  have "sum_list (map (\<lambda>x. x) xs) \<le> sum_list (map (\<lambda>x. Max (set xs)) xs)"
    by (rule sum_list_mono) simp
  then have "sum_list xs \<le> of_nat (length xs) * Max (set xs)"
    by (simp add: sum_list_triv)
  then show "sum_list xs / of_nat (length xs) \<le> Max (set xs)"
    using pos by (simp add: pos_divide_le_eq mult.commute)
qed

lemma mean_overflow_iff:
  "mean vs = Inl OverflowError \<longleftrightarrow>
     vs \<noteq> [] \<and> \<not> int_exact vs \<and> 2 ^ 1024 \<le> \<bar>round_double (exact_mean vs)\<bar>"
  by (cases "vs = []"; cases "int_exact vs")
     (simp_all add: mean_Nil mean_int_exact mean_float)

lemma stat_tuple_is_stats:
  assumes "stat_tuple vs = Inr t"
  shows "vs \<noteq> [] \<and> is_stats vs t"
proof -
  from assms have ne: "vs \<noteq> []" by (auto simp: stat_tuple_Nil)
  from stat_tuple_Cons [OF ne] obtain mn mx
    where mn: "mn \<in> set vs" "val mn = Min (set (map val vs))"
      and mx: "mx \<in> set vs" "val mx = Max (set (map val vs))"
      and st: "stat_tuple vs = (case mean vs of Inl e \<Rightarrow> Inl e | Inr av \<Rightarrow> Inr (mn, mx, av))"
    by blast
  from st assms obtain av where av: "mean vs = Inr av" and t: "t = (mn, mx, av)"
    by (cases "mean vs") auto
  have "av = (if int_exact vs then PyInt \<lfloor>exact_mean vs\<rfloor>
              else PyFloat (round_double (exact_mean vs)))"
  proof (cases "int_exact vs")
    case True
    with av ne show ?thesis by (simp add: mean_int_exact)
  next
    case False
    with av ne show ?thesis by (simp add: mean_float split: if_splits)
  qed
  with mn mx ne show ?thesis by (simp add: is_stats_def t)
qed

lemma is_stats_bounds:
  assumes "vs \<noteq> []" and "is_stats vs t"
  shows "val (MMAMin t) \<le> val (MMAMax t)"
    and "int_exact vs \<Longrightarrow> val (MMAAvg t) = exact_mean vs"
    and "int_exact vs \<or> is_double (val (MMAMin t)) \<and> is_double (val (MMAMax t)) \<Longrightarrow>
           val (MMAMin t) \<le> val (MMAAvg t) \<and> val (MMAAvg t) \<le> val (MMAMax t)"
proof -
  have ne: "map val vs \<noteq> []" using assms(1) by simp
  from mean_bounds [OF ne]
  have lo: "val (MMAMin t) \<le> exact_mean vs" and hi: "exact_mean vs \<le> val (MMAMax t)"
    using assms(2) by (simp_all add: is_stats_def exact_mean_def)
  from lo hi show "val (MMAMin t) \<le> val (MMAMax t)" by simp
  show ex: "val (MMAAvg t) = exact_mean vs" if ie: "int_exact vs"
  proof -
    from ie assms(2) have "MMAAvg t = PyInt \<lfloor>exact_mean vs\<rfloor>"
      by (simp only: is_stats_def if_True)
    moreover from ie have "of_int \<lfloor>exact_mean vs\<rfloor> = exact_mean vs"
      by (simp only: int_exact_def)
    ultimately show ?thesis by (simp only: val.simps)
  qed
  show "val (MMAMin t) \<le> val (MMAAvg t) \<and> val (MMAAvg t) \<le> val (MMAMax t)"
    if c: "int_exact vs \<or> is_double (val (MMAMin t)) \<and> is_double (val (MMAMax t))"
  proof (cases "int_exact vs")
    case True
    with ex lo hi show ?thesis by simp
  next
    case False
    with c have d: "round_double (val (MMAMin t)) = val (MMAMin t)"
        "round_double (val (MMAMax t)) = val (MMAMax t)"
      by (simp_all add: is_double_def)
    from False assms(2) have av: "val (MMAAvg t) = round_double (exact_mean vs)"
      by (simp add: is_stats_def)
    from round_double_mono [OF lo] round_double_mono [OF hi] show ?thesis
      by (simp add: d av)
  qed
qed

lemma loop_success:
  assumes "distinct (map fst acc @ map fst bins)" and "bin_means f bins = map Inr avs"
  shows "\<exists>ts. minMaxAvgPerBin_loop f bins acc = Inr (acc @ ts) \<and> map fst ts = map fst bins
           \<and> map (\<lambda>t. MMAAvg (snd t)) ts = avs
           \<and> list_all2 (\<lambda>b t. stat_tuple (map f (snd b)) = Inr (snd t)) bins ts"
  using assms
proof (induction bins arbitrary: acc avs)
  case Nil
  then show ?case by (simp add: bin_means_def)
next
  case (Cons b bins)
  obtain k rs where b: "b = (k, rs)" by (cases b)
  from Cons.prems(2) obtain av avs' where avs: "avs = av # avs'"
    and av: "mean (map f rs) = Inr av" and rest: "bin_means f bins = map Inr avs'"
    by (cases avs) (auto simp: bin_means_def b)
  from av have ne: "map f rs \<noteq> []" by (auto simp: mean_Nil)
  from stat_tuple_Cons [OF ne] av obtain mn mx where st: "stat_tuple (map f rs) = Inr (mn, mx, av)"
    by auto
  from Cons.prems(1) have new: "k \<notin> set (map fst acc)" by (auto simp: b)
  from Cons.prems(1) have "distinct (map fst (acc @ [(k, (mn, mx, av))]) @ map fst bins)"
    by (auto simp: b)
  from Cons.IH [OF this rest] obtain ts
    where ts: "minMaxAvgPerBin_loop f bins (acc @ [(k, (mn, mx, av))])
                 = Inr ((acc @ [(k, (mn, mx, av))]) @ ts)"
      "map fst ts = map fst bins" "map (\<lambda>t. MMAAvg (snd t)) ts = avs'"
      "list_all2 (\<lambda>b t. stat_tuple (map f (snd b)) = Inr (snd t)) bins ts"
    by blast
  have "minMaxAvgPerBin_loop f (b # bins) acc = Inr (acc @ (k, (mn, mx, av)) # ts)"
    by (simp add: b st dict_set_new [OF new] ts(1))
  moreover have "map fst ((k, (mn, mx, av)) # ts) = map fst (b # bins)" by (simp add: b ts(2))
  moreover have "map (\<lambda>t. MMAAvg (snd t)) ((k, (mn, mx, av)) # ts) = avs"
    by (simp add: avs ts(3))
  moreover have "list_all2 (\<lambda>b t. stat_tuple (map f (snd b)) = Inr (snd t)) (b # bins)
      ((k, (mn, mx, av)) # ts)"
    by (simp add: b st ts(4))
  ultimately show ?case by blast
qed

lemma loop_Inr_means:
  "minMaxAvgPerBin_loop f bins acc = Inr m \<Longrightarrow> \<exists>avs. bin_means f bins = map Inr avs"
proof (induction bins arbitrary: acc)
  case Nil
  then show ?case by (simp add: bin_means_def)
next
  case (Cons b bins)
  obtain k rs where b: "b = (k, rs)" by (cases b)
  from Cons.prems obtain t where t: "stat_tuple (map f rs) = Inr t"
    and rest: "minMaxAvgPerBin_loop f bins (dict_set k t acc) = Inr m"
    by (cases "stat_tuple (map f rs)") (auto simp: b)
  from Cons.IH [OF rest] obtain avs where "bin_means f bins = map Inr avs" by blast
  with stat_tuple_mean [OF t] have "bin_means f (b # bins) = map Inr (MMAAvg t # avs)"
    by (simp add: bin_means_def b)
  then show ?case by blast
qed

lemma loop_Inl:
  "minMaxAvgPerBin_loop f bins acc = Inl e \<Longrightarrow>
     (e = ValueError \<and> (\<exists>b \<in> set bins. snd b = []))
   \<or> (e = OverflowError \<and> (\<exists>b \<in> set bins. mean (map f (snd b)) = Inl OverflowError))"
proof (induction bins arbitrary: acc)
  case Nil
  then show ?case by simp
next
  case (Cons b bins)
  obtain k rs where b: "b = (k, rs)" by (cases b)
  show ?case
  proof (cases "stat_tuple (map f rs)")
    case (Inl e')
    with Cons.prems have "e' = e" by (simp add: b)
    with stat_tuple_errors [OF Inl] show ?thesis by (auto simp: b)
  next
    case (Inr t)
    with Cons.prems have "minMaxAvgPerBin_loop f bins (dict_set k t acc) = Inl e"
      by (simp add: b)
    from Cons.IH [OF this] show ?thesis by auto
  qed
qed

lemma loop_empty_bin:
  "(k, []) \<in> set bins \<Longrightarrow> \<exists>e. minMaxAvgPerBin_loop f bins acc = Inl e"
proof (induction bins arbitrary: acc)
  case Nil
  then show ?case by simp
next
  case (Cons b bins)
  obtain k' rs where b: "b = (k', rs)" by (cases b)
  show ?case
  proof (cases "stat_tuple (map f rs)")
    case (Inl e)
    then show ?thesis by (simp add: b)
  next
    case (Inr t)
    then have "rs \<noteq> []" by (auto simp: stat_tuple_Nil)
    with Cons.prems have "(k, []) \<in> set bins" by (auto simp: b)
    from Cons.IH [OF this] show ?thesis by (simp add: b Inr)
  qed
qed

lemma loop_result_nonempty:
  "minMaxAvgPerBin_loop f bins acc = Inr m \<Longrightarrow> bins \<noteq> [] \<or> acc \<noteq> [] \<Longrightarrow> m \<noteq> []"
proof (induction bins arbitrary: acc)
  case Nil
  then show ?case by simp
next
  case (Cons b bins)
  obtain k' rs where b: "b = (k', rs)" by (cases b)
  from Cons.prems(1) obtain t where
    "minMaxAvgPerBin_loop f bins (dict_set k' t acc) = Inr m"
    by (cases "stat_tuple (map f rs)") (auto simp: b)
  then show ?case by (rule Cons.IH) (simp add: dict_set_nonempty)
qed

lemma minMaxAvgPerBin_success:
  assumes "is_dict bins" and "bin_means f bins = map Inr avs"
  shows "\<exists>m. minMaxAvgPerBin bins f = Inr m \<and> map fst m = map fst bins
           \<and> map (\<lambda>t. MMAAvg (snd t)) m = avs
           \<and> list_all2 (\<lambda>b t. stat_tuple (map f (snd b)) = Inr (snd t)) bins m"
  unfolding minMaxAvgPerBin_def
  using loop_success [of "[]" bins f avs] assms by (simp add: is_dict_def)

subsection \<open>Aggregation\<close>

text \<open>
  The mean that \<open>minMaxAvgPerBin\<close> stores is not always the arithmetic mean, and need
  not lie between the minimum and the maximum: for the ints \<open>2^54 + 1\<close> and \<open>2^54 + 2\<close>
  the exact mean \<open>2^54 + 3/2\<close> is not an integer, so it is converted to the nearest
  double, which is \<open>2^54\<close>, below the minimum.
\<close>

theorem minMaxAvgPerBin_mean_counterexample:
  "is_dict [(0::nat, [18014398509481985, 18014398509481986 :: int])]
   \<and> nonempty_bins [(0::nat, [18014398509481985, 18014398509481986 :: int])]
   \<and> minMaxAvgPerBin [(0::nat, [18014398509481985, 18014398509481986 :: int])] PyInt
       = Inr [(0, (PyInt 18014398509481985, PyInt 18014398509481986,
                   PyFloat 18014398509481984))]
   \<and> val (PyFloat 18014398509481984) \<noteq> (18014398509481985 + 18014398509481986) / 2
   \<and> \<not> val (PyInt 18014398509481985) \<le> val (PyFloat 18014398509481984)"
  by code_simp

text \<open>
  C3 (as amended): on a dictionary of non-empty bins, \<open>minMaxAvgPerBin\<close> either fails
  with \<open>OverflowError\<close> (some bin's mean has to be converted to float and is beyond the
  largest double), or returns the dictionary with the same keys in the same order that
  maps each key to the triple of an item of least value, an item of greatest value and
  the mean as \<open>statistics.mean\<close> computes it: the exact sum divided by count when the
  values are ints and the quotient is an integer, and otherwise that quotient rounded to
  the nearest double. The minimum is at most the maximum, and the mean lies between them
  whenever it is exact or the minimum and the maximum are doubles (as all float values
  are, and all ints up to \<open>2^53\<close>).
\<close>

theorem minMaxAvgPerBin_computed:
  assumes "is_dict bins" and "nonempty_bins bins"
  shows "(minMaxAvgPerBin bins f = Inl OverflowError
          \<and> (\<exists>b \<in> set bins. \<not> int_exact (map f (snd b))
                \<and> 2 ^ 1024 \<le> \<bar>round_double (exact_mean (map f (snd b)))\<bar>))
       \<or> (\<exists>m. minMaxAvgPerBin bins f = Inr m \<and> dict_keys m = dict_keys bins
            \<and> (\<forall>i < length bins.
                  is_stats (map f (snd (bins ! i))) (snd (m ! i))
                \<and> val (MMAMin (snd (m ! i))) \<le> val (MMAMax (snd (m ! i)))
                \<and> (int_exact (map f (snd (bins ! i)))
                     \<longrightarrow> val (MMAAvg (snd (m ! i))) = exact_mean (map f (snd (bins ! i))))
                \<and> (int_exact (map f (snd (bins ! i)))
                      \<or> is_double (val (MMAMin (snd (m ! i))))
                        \<and> is_double (val (MMAMax (snd (m ! i))))
                     \<longrightarrow> val (MMAMin (snd (m ! i))) \<le> val (MMAAvg (snd (m ! i)))
                        \<and> val (MMAAvg (snd (m ! i))) \<le> val (MMAMax (snd (m ! i))))))"
proof (cases "minMaxAvgPerBin bins f")
  case (Inl e)
  from assms(2) have "\<not> (\<exists>b \<in> set bins. snd b = [])"
    by (simp add: nonempty_bins_def list_all_iff)
  with loop_Inl [of f bins "[]" e] Inl
  have e: "e = OverflowError" and "\<exists>b \<in> set bins. mean (map f (snd b)) = Inl OverflowError"
    by (auto simp: minMaxAvgPerBin_def)
  then have "\<exists>b \<in> set bins. \<not> int_exact (map f (snd b))
      \<and> 2 ^ 1024 \<le> \<bar>round_double (exact_mean (map f (snd b)))\<bar>"
    by (simp only: mean_overflow_iff) blast
  with Inl e show ?thesis by blast
next
  case (Inr m)
  then obtain avs where avs: "bin_means f bins = map Inr avs"
    unfolding minMaxAvgPerBin_def by (blast dest: loop_Inr_means)
  from minMaxAvgPerBin_success [OF assms(1) avs] Inr
  have keys: "map fst m = map fst bins"
    and all: "list_all2 (\<lambda>b t. stat_tuple (map f (snd b)) = Inr (snd t)) bins m"
    by auto
  let ?P = "\<lambda>m i. is_stats (map f (snd (bins ! i))) (snd (m ! i))
      \<and> val (MMAMin (snd (m ! i))) \<le> val (MMAMax (snd (m ! i)))
      \<and> (int_exact (map f (snd (bins ! i)))
           \<longrightarrow> val (MMAAvg (snd (m ! i))) = exact_mean (map f (snd (bins ! i))))
      \<and> (int_exact (map f (snd (bins ! i)))
            \<or> is_double (val (MMAMin (snd (m ! i)))) \<and> is_double (val (MMAMax (snd (m ! i))))
           \<longrightarrow> val (MMAMin (snd (m ! i))) \<le> val (MMAAvg (snd (m ! i)))
              \<and> val (MMAAvg (snd (m ! i))) \<le> val (MMAMax (snd (m ! i))))"
  have "?P m i" if i: "i < length bins" for i
  proof -
    from all i have "stat_tuple (map f (snd (bins ! i))) = Inr (snd (m ! i))"
      by (simp add: list_all2_conv_all_nth)
    from stat_tuple_is_stats [OF this]
    have ne: "map f (snd (bins ! i)) \<noteq> []"
      and st: "is_stats (map f (snd (bins ! i))) (snd (m ! i))"
      by simp_all
    from st is_stats_bounds [OF ne st] show ?thesis by blast
  qed
  then have every: "\<forall>i < length bins. ?P m i" by blast
  have "dict_keys m = dict_keys bins" using keys by (simp add: dict_keys_def)
  with Inr every have "\<exists>m. minMaxAvgPerBin bins f = Inr m \<and> dict_keys m = dict_keys bins
      \<and> (\<forall>i < length bins. ?P m i)"
    by blast
  then show ?thesis by (rule disjI2)
qed

lemma minMaxAvgPerBin_example:
  "minMaxAvgPerBin [(4::nat, [1, 1, 2 :: int]), (8, [10, 20])] PyInt
     = Inr [(4, (PyInt 1, PyInt 2, PyFloat (6004799503160661 / 4503599627370496))),
            (8, (PyInt 10, PyInt 20, PyInt 15))]"
  by code_simp

lemma is_double_examples: "is_double (val (PyInt 1))" "is_double (val (PyInt 2))"
  by code_simp+

theorem minMaxAvgPerBin_computed_witness:
  "is_dict [(4::nat, [1, 1, 2 :: int]), (8, [10, 20])]
   \<and> nonempty_bins [(4::nat, [1, 1, 2 :: int]), (8, [10, 20])]
   \<and> minMaxAvgPerBin [(4::nat, [1, 1, 2 :: int]), (8, [10, 20])] PyInt
       = Inr [(4, (PyInt 1, PyInt 2, PyFloat (6004799503160661 / 4503599627370496))),
              (8, (PyInt 10, PyInt 20, PyInt 15))]
   \<and> val (PyInt 1) \<le> val (PyFloat (6004799503160661 / 4503599627370496))
   \<and> val (PyFloat (6004799503160661 / 4503599627370496)) \<le> val (PyInt 2)"
proof -
  let ?W = "[(4::nat, [1, 1, 2 :: int]), (8, [10, 20])]"
  let ?M = "[(4::nat, (PyInt 1, PyInt 2, PyFloat (6004799503160661 / 4503599627370496))),
             (8, (PyInt 10, PyInt 20, PyInt 15))]"
  have d: "is_dict ?W" by (simp add: is_dict_def)
  have n: "nonempty_bins ?W" by (simp add: nonempty_bins_def)
  note c = minMaxAvgPerBin_computed [OF d n, of PyInt]
  from c obtain m where m: "minMaxAvgPerBin ?W PyInt = Inr m"
    and every: "\<forall>i < length ?W.
        (int_exact (map PyInt (snd (?W ! i)))
           \<or> is_double (val (MMAMin (snd (m ! i)))) \<and> is_double (val (MMAMax (snd (m ! i))))
         \<longrightarrow> val (MMAMin (snd (m ! i))) \<le> val (MMAAvg (snd (m ! i)))
            \<and> val (MMAAvg (snd (m ! i))) \<le> val (MMAMax (snd (m ! i))))"
    unfolding minMaxAvgPerBin_example by blast
  from m have mM: "m = ?M" by (simp add: minMaxAvgPerBin_example)
  from every have "is_double (val (MMAMin (snd (m ! 0)))) \<and> is_double (val (MMAMax (snd (m ! 0))))
         \<longrightarrow> val (MMAMin (snd (m ! 0))) \<le> val (MMAAvg (snd (m ! 0)))
            \<and> val (MMAAvg (snd (m ! 0))) \<le> val (MMAMax (snd (m ! 0)))"
    by simp
  then have b: "val (PyInt 1) \<le> val (PyFloat (6004799503160661 / 4503599627370496))"
      "val (PyFloat (6004799503160661 / 4503599627370496)) \<le> val (PyInt 2)"
    unfolding mM using is_double_examples by simp_all
  show ?thesis by (intro conjI d n minMaxAvgPerBin_example b)
qed

subsection \<open>An empty bin\<close>

text \<open>
  C6: if some bin of the dictionary is empty, \<open>minMaxAvgPerBin\<close> returns no dictionary
  at all: it fails, with the \<open>ValueError\<close> of \<open>min\<close> on an empty list, or with the
  \<open>OverflowError\<close> of an earlier bin's mean; when no bin's mean overflows the error is
  \<open>ValueError\<close>.
\<close>

theorem minMaxAvgPerBin_empty_bin:
  assumes "(k, []) \<in> set bins"
  shows "(minMaxAvgPerBin bins f = Inl ValueError \<or> minMaxAvgPerBin bins f = Inl OverflowError)
     \<and> (list_all (\<lambda>b. mean (map f (snd b)) \<noteq> Inl OverflowError) bins
          \<longrightarrow> minMaxAvgPerBin bins f = Inl ValueError)"
proof -
  from loop_empty_bin [OF assms] obtain e where e: "minMaxAvgPerBin bins f = Inl e"
    unfolding minMaxAvgPerBin_def by blast
  with loop_Inl [of f bins "[]" e]
  have "e = ValueError
      \<or> (e = OverflowError \<and> (\<exists>b \<in> set bins. mean (map f (snd b)) = Inl OverflowError))"
    by (auto simp: minMaxAvgPerBin_def)
  with e show ?thesis by (auto simp: list_all_iff)
qed

theorem minMaxAvgPerBin_empty_bin_witness:
  "(8, []) \<in> set [(4::nat, [10, 20 :: int]), (8, [])]
   \<and> list_all (\<lambda>b. mean (map PyInt (snd b)) \<noteq> Inl OverflowError) [(4::nat, [10, 20 :: int]), (8, [])]
   \<and> minMaxAvgPerBin [(4::nat, [10, 20 :: int]), (8, [])] PyInt = Inl ValueError"
proof -
  have h: "(8, []) \<in> set [(4::nat, [10, 20 :: int]), (8, [])]" by simp
  have o: "list_all (\<lambda>b. mean (map PyInt (snd b)) \<noteq> Inl OverflowError)
      [(4::nat, [10, 20 :: int]), (8, [])]"
    by code_simp
  note c = minMaxAvgPerBin_empty_bin [OF h, of PyInt, THEN conjunct2, rule_format, OF o]
  show ?thesis by (intro conjI h o c)
qed

section \<open>Properties of getBestBin\<close>

subsection \<open>The sort and its first item\<close>

lemma find_filter:
  "find P xs = (case filter P xs of [] \<Rightarrow> None | x # _ \<Rightarrow> Some x)"
  by (induction xs) auto

lemma sort_key_Nil_iff: "sort_key f xs = [] \<longleftrightarrow> xs = []"
  by (cases xs) (simp_all add: insort_not_Nil)

lemma hd_sort_key_first_min:
  fixes f :: "'a \<Rightarrow> rat"
  assumes "xs \<noteq> []"
  shows "find (\<lambda>x. f x = Min (set (map f xs))) xs = Some (hd (sort_key f xs))"
proof -
  let ?s = "sort_key f xs"
  from assms have "?s \<noteq> []" by (simp add: sort_key_Nil_iff)
  then obtain a t where s: "?s = a # t" by (cases ?s) auto
  have "sorted (map f ?s)" by simp
  then have le: "\<forall>y \<in> set ?s. f a \<le> f y" by (auto simp: s)
  have "a \<in> set xs" using s by (metis list.set_intros(1) set_sort)
  have min: "Min (set (map f xs)) = f a"
  proof (rule Min_eqI)
    show "finite (set (map f xs))" by simp
    show "f a \<in> set (map f xs)" using \<open>a \<in> set xs\<close> by simp
    fix y assume "y \<in> set (map f xs)"
    then show "f a \<le> y" using le by auto
  qed
  have "filter (\<lambda>y. f y = f a) xs = filter (\<lambda>y. f y = f a) ?s"
    by (simp add: sort_key_stable)
  also have "\<dots> = a # filter (\<lambda>y. f y = f a) t" by (simp add: s)
  finally show ?thesis unfolding min s by (simp add: find_filter)
qed

lemma hd_rev_sort_key_first_max:
  fixes f :: "'a \<Rightarrow> rat"
  assumes "xs \<noteq> []"
  shows "find (\<lambda>x. f x = Max (set (map f xs))) xs = Some (hd (rev (sort_key f (rev xs))))"
proof -
  let ?s = "sort_key f (rev xs)"
  from assms have "?s \<noteq> []" by (simp add: sort_key_Nil_iff)
  then obtain t a where s: "?s = t @ [a]" by (cases ?s rule: rev_cases) auto
  have "sorted (map f ?s)" by simp
  then have le: "\<forall>y \<in> set ?s. f y \<le> f a" by (auto simp: s sorted_append)
  have "a \<in> set ?s" by (simp add: s)
  then have "a \<in> set xs" by simp
  have max: "Max (set (map f xs)) = f a"
  proof (rule Max_eqI)
    show "finite (set (map f xs))" by simp
    show "f a \<in> set (map f xs)" using \<open>a \<in> set xs\<close> by simp
    fix y assume "y \<in> set (map f xs)"
    then show "y \<le> f a" using le by auto
  qed
  have "rev (filter (\<lambda>y. f y = f a) xs) = filter (\<lambda>y. f y = f a) ?s"
    by (simp add: sort_key_stable rev_filter)
  also have "\<dots> = filter (\<lambda>y. f y = f a) t @ [a]" by (simp add: s)
  finally have "filter (\<lambda>y. f y = f a) xs = a # rev (filter (\<lambda>y. f y = f a) t)"
    by (metis rev_rev_ident rev_append rev.simps append_Cons append_Nil)
  then show ?thesis unfolding max s by (simp add: find_filter)
qed

lemma sort_keys_map:
  "\<forall>b \<in> set bs. key (fst b) = Inr (h b) \<Longrightarrow>
   sort_keys key (map fst bs) = Inr (map (\<lambda>b. (fst b, h b)) bs)"
  by (induction bs) auto

lemma sort_keys_total:
  "\<forall>x \<in> set xs. \<exists>v. key x = Inr v \<Longrightarrow> \<exists>kvs. sort_keys key xs = Inr kvs \<and> map fst kvs = xs"
proof (induction xs)
  case Nil
  then show ?case by simp
next
  case (Cons x xs)
  then obtain v kvs where "key x = Inr v" "sort_keys key xs = Inr kvs" "map fst kvs = xs"
    by auto
  then show ?case by simp
qed

lemma avg_key_total:
  "x \<in> set (dict_keys m) \<Longrightarrow> \<exists>v. avg_key m x = Inr v"
proof -
  assume "x \<in> set (dict_keys m)"
  then have "map_of m x \<noteq> None" by (simp add: dict_keys_def map_of_eq_None_iff)
  then show ?thesis by (auto simp: avg_key_def dict_get_def)
qed

lemma first_of_keys:
  "xs \<noteq> [] \<Longrightarrow>
   (case map fst xs of [] \<Rightarrow> Inl IndexError | b # _ \<Rightarrow> Inr b) = Inr (fst (hd xs))"
  by (cases xs) auto


lemma avg_key_member:
  assumes "distinct (map fst m)" and "t \<in> set m"
  shows "avg_key m (fst t) = Inr (MMAAvg (snd t))"
proof -
  from assms have "map_of m (fst t) = Some (snd t)" by (intro map_of_is_SomeI) simp_all
  then show ?thesis by (simp add: avg_key_def dict_get_def)
qed

lemma map_pair_zip: "map (\<lambda>t. (g t, h t)) xs = zip (map g xs) (map h xs)"
  by (induction xs) simp_all

lemma getBestBin_sorted:
  assumes "is_dict bins" and "bin_means f bins = map Inr avs"
  shows "getBestBin bins f lowerIsBetter =
    (case map fst (if \<not> lowerIsBetter
                   then rev (sort_key (\<lambda>kv. val (snd kv)) (rev (zip (map fst bins) avs)))
                   else sort_key (\<lambda>kv. val (snd kv)) (zip (map fst bins) avs)) of
       [] \<Rightarrow> Inl IndexError | b # _ \<Rightarrow> Inr b)"
proof -
  from minMaxAvgPerBin_success [OF assms] obtain m
    where m: "minMaxAvgPerBin bins f = Inr m" and keys: "map fst m = map fst bins"
      and avs: "map (\<lambda>t. MMAAvg (snd t)) m = avs"
    by blast
  have dist: "distinct (map fst m)" using assms(1) keys by (simp add: is_dict_def)
  have "sort_keys (avg_key m) (map fst m) = Inr (map (\<lambda>t. (fst t, MMAAvg (snd t))) m)"
    by (rule sort_keys_map) (simp add: avg_key_member [OF dist])
  also have "map (\<lambda>t. (fst t, MMAAvg (snd t))) m = zip (map fst bins) avs"
    by (simp only: map_pair_zip keys avs)
  finally have "sort_keys (avg_key m) (dict_keys m) = Inr (zip (map fst bins) avs)"
    by (simp add: dict_keys_def)
  then show ?thesis by (simp add: getBestBin_def m list_sort_def)
qed

lemma getBestBin_first_best:
  assumes "is_dict bins" and "bins \<noteq> []" and "bin_means f bins = map Inr avs"
  shows "\<exists>i < length bins. getBestBin bins f lowerIsBetter = Inr (fst (bins ! i))
           \<and> val (avs ! i) = best_mean avs lowerIsBetter
           \<and> (\<forall>j < i. val (avs ! j) \<noteq> best_mean avs lowerIsBetter)"
proof -
  let ?g = "\<lambda>kv :: 'a \<times> number. val (snd kv)"
  let ?kvs = "zip (map fst bins) avs"
  have len: "length avs = length bins"
    using arg_cong [OF assms(3), of length] by (simp add: bin_means_def)
  then have lk: "length ?kvs = length bins" by simp
  have ne: "?kvs \<noteq> []" using assms(2) lk by (metis length_0_conv)
  have "map snd ?kvs = avs" using len by (intro map_snd_zip) simp
  then have "map val (map snd ?kvs) = map val avs" by (rule arg_cong)
  then have vals: "map ?g ?kvs = map val avs" by (simp only: map_map comp_def)
  have nth: "?kvs ! i = (fst (bins ! i), avs ! i)" if "i < length bins" for i
    using that len by simp
  have idx: "\<exists>i < length bins. x = ?kvs ! i \<and> val (avs ! i) = best
        \<and> (\<forall>j < i. val (avs ! j) \<noteq> best)"
    if "find (\<lambda>kv. ?g kv = best) ?kvs = Some x" for x best
  proof -
    from that obtain i where i: "i < length ?kvs" "?g (?kvs ! i) = best" "x = ?kvs ! i"
      "\<forall>j < i. ?g (?kvs ! j) \<noteq> best"
      by (auto simp: find_Some_iff)
    from i(1) lk have ib: "i < length bins" by simp
    have "val (avs ! i) = best" using i(2) nth [OF ib] by simp
    moreover have "\<forall>j < i. val (avs ! j) \<noteq> best"
    proof (intro allI impI)
      fix j assume "j < i"
      with ib have "j < length bins" by simp
      from nth [OF this] i(4) \<open>j < i\<close> show "val (avs ! j) \<noteq> best" by auto
    qed
    ultimately show ?thesis using ib i(3) by blast
  qed
  show ?thesis
  proof (cases lowerIsBetter)
    case True
    let ?s = "sort_key ?g ?kvs"
    have s: "?s \<noteq> []" using ne by (simp add: sort_key_Nil_iff)
    have "find (\<lambda>kv. ?g kv = Min (set (map ?g ?kvs))) ?kvs = Some (hd ?s)"
      using ne by (rule hd_sort_key_first_min)
    then have "find (\<lambda>kv. ?g kv = best_mean avs True) ?kvs = Some (hd ?s)"
      by (simp only: vals best_mean_def if_True)
    from idx [OF this] obtain i where i: "i < length bins" "hd ?s = ?kvs ! i"
      "val (avs ! i) = best_mean avs True" "\<forall>j < i. val (avs ! j) \<noteq> best_mean avs True"
      by blast
    have "getBestBin bins f True = Inr (fst (hd ?s))"
      using first_of_keys [OF s] by (simp add: getBestBin_sorted [OF assms(1,3)])
    with i nth [OF i(1)] True show ?thesis by auto
  next
    case False
    let ?s = "rev (sort_key ?g (rev ?kvs))"
    have s: "?s \<noteq> []" using ne by (simp add: sort_key_Nil_iff)
    have "find (\<lambda>kv. ?g kv = Max (set (map ?g ?kvs))) ?kvs = Some (hd ?s)"
      using ne by (rule hd_rev_sort_key_first_max)
    then have "find (\<lambda>kv. ?g kv = best_mean avs False) ?kvs = Some (hd ?s)"
      by (simp only: vals best_mean_def if_False)
    from idx [OF this] obtain i where i: "i < length bins" "hd ?s = ?kvs ! i"
      "val (avs ! i) = best_mean avs False" "\<forall>j < i. val (avs ! j) \<noteq> best_mean avs False"
      by blast
    have "getBestBin bins f False = Inr (fst (hd ?s))"
      using first_of_keys [OF s] by (simp add: getBestBin_sorted [OF assms(1,3)])
    with i nth [OF i(1)] False show ?thesis by auto
  qed
qed


lemma getBestBin_IndexError_iff:
  "getBestBin bins f lowerIsBetter = Inl IndexError \<longleftrightarrow> bins = []"
proof
  assume "bins = []"
  then show "getBestBin bins f lowerIsBetter = Inl IndexError"
    by (simp add: getBestBin_def minMaxAvgPerBin_def list_sort_def dict_keys_def)
next
  assume err: "getBestBin bins f lowerIsBetter = Inl IndexError"
  show "bins = []"
  proof (cases "minMaxAvgPerBin bins f")
    case (Inl e)
    then have "e = ValueError \<or> e = OverflowError"
      unfolding minMaxAvgPerBin_def by (auto dest: loop_Inl)
    with Inl err show ?thesis by (auto simp: getBestBin_def)
  next
    case (Inr m)
    have "\<forall>x \<in> set (dict_keys m). \<exists>v. avg_key m x = Inr v" by (simp add: avg_key_total)
    then obtain kvs where kvs: "sort_keys (avg_key m) (dict_keys m) = Inr kvs"
      and keys: "map fst kvs = dict_keys m"
      using sort_keys_total by blast
    show ?thesis
    proof (rule ccontr)
      assume "bins \<noteq> []"
      with Inr have "m \<noteq> []" unfolding minMaxAvgPerBin_def by (auto dest: loop_result_nonempty)
      with keys have ne: "kvs \<noteq> []" by (auto simp: dict_keys_def)
      then have "rev (sort_key (\<lambda>kv. val (snd kv)) (rev kvs)) \<noteq> []"
          "sort_key (\<lambda>kv. val (snd kv)) kvs \<noteq> []"
        by (simp_all add: sort_key_Nil_iff)
      then have "getBestBin bins f lowerIsBetter \<noteq> Inl IndexError"
        using first_of_keys [of "rev (sort_key (\<lambda>kv. val (snd kv)) (rev kvs))"]
          first_of_keys [of "sort_key (\<lambda>kv. val (snd kv)) kvs"]
        by (simp add: getBestBin_def Inr list_sort_def kvs)
      with err show False by simp
    qed
  qed
qed

subsection \<open>Empty mapping\<close>

text \<open>
  C5: on the empty dictionary \<open>getBestBin\<close> returns no key: it fails with the
  \<open>IndexError\<close> of \<open>bins[0]\<close>, for every statistic function and either direction.
  This error marks the empty input: no non-empty dictionary gives it.
\<close>

theorem getBestBin_empty:
  "getBestBin [] f lowerIsBetter = Inl IndexError
   \<and> (getBestBin bins f lowerIsBetter = Inl IndexError \<longleftrightarrow> bins = [])"
  using getBestBin_IndexError_iff [of "[]" f lowerIsBetter]
        getBestBin_IndexError_iff [of bins f lowerIsBetter]
  by simp

subsection \<open>Ties\<close>

text \<open>
  C10: on a non-empty dictionary whose bins all have a mean (\<open>statistics.mean\<close> of the
  bin's values, as computed: \<open>avs\<close> in dictionary order), \<open>getBestBin\<close> returns the key
  of the first bin, in the order of the dictionary, whose computed mean is the best one
  (the smallest if \<open>lowerIsBetter\<close>, the largest otherwise): among bins tied at the best
  mean the earliest one wins, in either direction.
\<close>

theorem getBestBin_tie_break:
  assumes "is_dict bins" and "bins \<noteq> []" and "bin_means f bins = map Inr avs"
  shows "\<exists>i < length bins. getBestBin bins f lowerIsBetter = Inr (fst (bins ! i))
           \<and> val (avs ! i) = best_mean avs lowerIsBetter
           \<and> (\<forall>j < i. val (avs ! j) \<noteq> best_mean avs lowerIsBetter)"
  using assms by (rule getBestBin_first_best)

lemma getBestBin_example_tie:
  "bin_means (\<lambda>r. r) [(1::nat, [PyFloat 1]),
       (2, [PyFloat 1, PyFloat 1, PyFloat 1, PyFloat (4503599627370497 / 4503599627370496)])]
     = map Inr [PyFloat 1, PyFloat 1]"
  "getBestBin [(1::nat, [PyFloat 1]),
       (2, [PyFloat 1, PyFloat 1, PyFloat 1, PyFloat (4503599627370497 / 4503599627370496)])]
     (\<lambda>r. r) False = Inr 1"
  "getBestBin [(1::nat, [PyFloat 1]),
       (2, [PyFloat 1, PyFloat 1, PyFloat 1, PyFloat (4503599627370497 / 4503599627370496)])]
     (\<lambda>r. r) True = Inr 1"
  "exact_mean [PyFloat 1]
     < exact_mean [PyFloat 1, PyFloat 1, PyFloat 1, PyFloat (4503599627370497 / 4503599627370496)]"
  by code_simp+

theorem getBestBin_tie_break_witness:
  "is_dict [(1::nat, [PyFloat 1]),
       (2, [PyFloat 1, PyFloat 1, PyFloat 1, PyFloat (4503599627370497 / 4503599627370496)])]
   \<and> bin_means (\<lambda>r. r) [(1::nat, [PyFloat 1]),
       (2, [PyFloat 1, PyFloat 1, PyFloat 1, PyFloat (4503599627370497 / 4503599627370496)])]
       = map Inr [PyFloat 1, PyFloat 1]
   \<and> (\<exists>i < length [(1::nat, [PyFloat 1]),
           (2, [PyFloat 1, PyFloat 1, PyFloat 1, PyFloat (4503599627370497 / 4503599627370496)])].
         getBestBin [(1::nat, [PyFloat 1]),
           (2, [PyFloat 1, PyFloat 1, PyFloat 1, PyFloat (4503599627370497 / 4503599627370496)])]
           (\<lambda>r. r) False
           = Inr (fst ([(1::nat, [PyFloat 1]),
           (2, [PyFloat 1, PyFloat 1, PyFloat 1, PyFloat (4503599627370497 / 4503599627370496)])] ! i))
       \<and> val ([PyFloat 1, PyFloat 1] ! i) = best_mean [PyFloat 1, PyFloat 1] False
       \<and> (\<forall>j < i. val ([PyFloat 1, PyFloat 1] ! j) \<noteq> best_mean [PyFloat 1, PyFloat 1] False))
   \<and> getBestBin [(1::nat, [PyFloat 1]),
       (2, [PyFloat 1, PyFloat 1, PyFloat 1, PyFloat (4503599627370497 / 4503599627370496)])]
       (\<lambda>r. r) False = Inr 1
   \<and> exact_mean [PyFloat 1]
       < exact_mean [PyFloat 1, PyFloat 1, PyFloat 1, PyFloat (4503599627370497 / 4503599627370496)]"
proof -
  have d: "is_dict [(1::nat, [PyFloat 1]),
       (2, [PyFloat 1, PyFloat 1, PyFloat 1, PyFloat (4503599627370497 / 4503599627370496)])]"
    by (simp add: is_dict_def)
  have e: "[(1::nat, [PyFloat 1]),
       (2, [PyFloat 1, PyFloat 1, PyFloat 1, PyFloat (4503599627370497 / 4503599627370496)])] \<noteq> []"
    by simp
  note c = getBestBin_tie_break [OF d e getBestBin_example_tie(1), of False]
  show ?thesis
    by (intro conjI d c getBestBin_example_tie(1) getBestBin_example_tie(2)
          getBestBin_example_tie(4))
qed

subsection \<open>Direction\<close>

text \<open>
  C2: on a non-empty dictionary whose bins all have a mean (\<open>statistics.mean\<close> of the
  bin's values, as computed: \<open>avs\<close> in dictionary order), the means being pairwise
  distinct, \<open>getBestBin\<close> with \<open>lowerIsBetter\<close> true returns the key of the bin whose
  mean is strictly smaller than every other bin's, and with \<open>lowerIsBetter\<close> false the
  key of the bin whose mean is strictly larger than every other bin's.
\<close>

theorem getBestBin_direction:
  assumes "is_dict bins" and "bins \<noteq> []" and "bin_means f bins = map Inr avs"
    and "distinct (map val avs)"
  shows "(\<exists>i < length bins. getBestBin bins f True = Inr (fst (bins ! i))
            \<and> (\<forall>j < length bins. j \<noteq> i \<longrightarrow> val (avs ! i) < val (avs ! j)))
       \<and> (\<exists>i < length bins. getBestBin bins f False = Inr (fst (bins ! i))
            \<and> (\<forall>j < length bins. j \<noteq> i \<longrightarrow> val (avs ! j) < val (avs ! i)))"
proof -
  have len: "length avs = length bins"
    using arg_cong [OF assms(3), of length] by (simp add: bin_means_def)
  have diff: "val (avs ! i) \<noteq> val (avs ! j)"
    if "i < length bins" "j < length bins" "j \<noteq> i" for i j
    using that assms(4) len nth_eq_iff_index_eq [of "map val avs" i j] by auto
  have mem: "val (avs ! j) \<in> set (map val avs)" if "j < length bins" for j
    using that len by simp
  have lo: "\<exists>i < length bins. getBestBin bins f True = Inr (fst (bins ! i))
            \<and> (\<forall>j < length bins. j \<noteq> i \<longrightarrow> val (avs ! i) < val (avs ! j))"
  proof -
    from getBestBin_first_best [OF assms(1-3), of True] obtain i
      where i: "i < length bins" "getBestBin bins f True = Inr (fst (bins ! i))"
        and best: "val (avs ! i) = Min (set (map val avs))"
      by (auto simp: best_mean_def)
    have "val (avs ! i) < val (avs ! j)" if j: "j < length bins" "j \<noteq> i" for j
    proof -
      have "Min (set (map val avs)) \<le> val (avs ! j)" using mem [OF j(1)] by (intro Min_le) simp_all
      with best diff [OF i(1) j] show ?thesis by simp
    qed
    with i show ?thesis by blast
  qed
  have hi: "\<exists>i < length bins. getBestBin bins f False = Inr (fst (bins ! i))
            \<and> (\<forall>j < length bins. j \<noteq> i \<longrightarrow> val (avs ! j) < val (avs ! i))"
  proof -
    from getBestBin_first_best [OF assms(1-3), of False] obtain i
      where i: "i < length bins" "getBestBin bins f False = Inr (fst (bins ! i))"
        and best: "val (avs ! i) = Max (set (map val avs))"
      by (auto simp: best_mean_def)
    have "val (avs ! j) < val (avs ! i)" if j: "j < length bins" "j \<noteq> i" for j
    proof -
      have "val (avs ! j) \<le> Max (set (map val avs))" using mem [OF j(1)] by (intro Max_ge) simp_all
      with best diff [OF i(1) j] show ?thesis by simp
    qed
    with i show ?thesis by blast
  qed
  from lo hi show ?thesis by (rule conjI)
qed

lemma getBestBin_example:
  "bin_means PyInt [(4::nat, [10, 20 :: int]), (8, [5])] = map Inr [PyInt 15, PyInt 5]"
  "getBestBin [(4::nat, [10, 20 :: int]), (8, [5])] PyInt True = Inr 8"
  "getBestBin [(4::nat, [10, 20 :: int]), (8, [5])] PyInt False = Inr 4"
  by code_simp+

theorem getBestBin_direction_witness:
  "is_dict [(4::nat, [10, 20 :: int]), (8, [5])]
   \<and> bin_means PyInt [(4::nat, [10, 20 :: int]), (8, [5])] = map Inr [PyInt 15, PyInt 5]
   \<and> distinct (map val [PyInt 15, PyInt 5])
   \<and> (\<exists>i < length [(4::nat, [10, 20 :: int]), (8, [5])].
         getBestBin [(4::nat, [10, 20 :: int]), (8, [5])] PyInt True
           = Inr (fst ([(4::nat, [10, 20 :: int]), (8, [5])] ! i))
         \<and> (\<forall>j < length [(4::nat, [10, 20 :: int]), (8, [5])].
               j \<noteq> i \<longrightarrow> val ([PyInt 15, PyInt 5] ! i) < val ([PyInt 15, PyInt 5] ! j)))
   \<and> getBestBin [(4::nat, [10, 20 :: int]), (8, [5])] PyInt True = Inr 8
   \<and> getBestBin [(4::nat, [10, 20 :: int]), (8, [5])] PyInt False = Inr 4"
proof -
  have d: "is_dict [(4::nat, [10, 20 :: int]), (8, [5])]" by (simp add: is_dict_def)
  have e: "[(4::nat, [10, 20 :: int]), (8, [5])] \<noteq> []" by simp
  have m: "distinct (map val [PyInt 15, PyInt 5])" by simp
  note c = getBestBin_direction [OF d e getBestBin_example(1) m, THEN conjunct1]
  show ?thesis by (intro conjI d m c getBestBin_example)
qed

end
